theory Spec2Isabelle
  imports Complex_Main "HOL-Library.Word"
begin

unbundle bit_operations_syntax

section \<open>JavaScript values\<close>

text \<open>
  A JavaScript string is a sequence of 16-bit code units; \<open>charCodeAt\<close>, the regular
  expression of \<open>norm\<close> and string comparison all work on code units.  The literals
  of \<open>game.js\<close> that the model needs are ASCII and are written with \<open>js\<close>.
\<close>

type_synonym codeunit = "16 word"
type_synonym jsstring = "codeunit list"

definition js :: "string \<Rightarrow> jsstring" where
  "js s = map (\<lambda>c. word_of_nat (of_char c)) s"

text \<open>The only exception the script can raise: a property read on \<open>undefined\<close>.\<close>

datatype js_error = TypeError

text \<open>\<open>xs[i]\<close>: reading outside the array gives \<open>undefined\<close>, here \<open>None\<close>.\<close>

definition js_nth :: "'a list \<Rightarrow> int \<Rightarrow> 'a option" where
  "js_nth xs i = (if 0 \<le> i \<and> i < int (length xs) then Some (xs ! nat i) else None)"

text \<open>An array whose elements may themselves be \<open>undefined\<close>.\<close>

definition js_get :: "'a option list \<Rightarrow> int \<Rightarrow> 'a option" where
  "js_get xs i = (case js_nth xs i of None \<Rightarrow> None | Some v \<Rightarrow> v)"

section \<open>Double-precision arithmetic\<close>

text \<open>
  JavaScript numbers are IEEE 754 doubles.  The integers of the script stay below
  \<open>2 ^ 53\<close> and are exact; the division in the generator and the multiplications that
  scale its result are rounded to the nearest double, ties to even.  \<open>fl\<close> is that
  rounding on a 53-bit significand; the exponent is unbounded, which differs from a
  double only below \<open>2 ^ -1022\<close> and above \<open>2 ^ 1023\<close>, and every value rounded
  here is \<open>0\<close> or lies between \<open>2 ^ -33\<close> and \<open>2 ^ 25\<close>.
\<close>

definition rne :: "real \<Rightarrow> int" where
  "rne s = (let f = \<lfloor>s\<rfloor>; d = s - of_int f
            in if d < 1 / 2 then f
               else if 1 / 2 < d then f + 1
               else if even f then f else f + 1)"

fun bitlength :: "nat \<Rightarrow> nat" where
  "bitlength n = (if n = 0 then 0 else bitlength (n div 2) + 1)"

declare bitlength.simps [simp del]

text \<open>For \<open>0 < q\<close>, the exponent \<open>e\<close> with \<open>2 ^ e \<le> q < 2 ^ (e + 1)\<close>.\<close>

definition ilog2 :: "real \<Rightarrow> int" where
  "ilog2 q = (if 1 \<le> q then int (bitlength (nat \<lfloor>q\<rfloor>)) - 1
              else - int (bitlength (nat (\<lceil>1 / q\<rceil> - 1))))"

definition fl :: "real \<Rightarrow> real" where
  "fl q = (if q = 0 then 0
           else let e = ilog2 \<bar>q\<bar> - 52
                in sgn q * of_int (rne (\<bar>q\<bar> / 2 powi e)) * 2 powi e)"

text \<open>
  The same rounding of a quotient of positive integers, in integer arithmetic:
  \<open>fl_int a b\<close> is \<open>fl (a / b)\<close> (lemma \<open>fl_int_correct\<close>).  It is the
  form in which concrete draws are computed.
\<close>

definition round_quot :: "int \<Rightarrow> int \<Rightarrow> int" where
  "round_quot a b =
     (let f = a div b; r = a mod b
      in if 2 * r < b then f else if b < 2 * r then f + 1 else if even f then f else f + 1)"

definition fl_int :: "int \<Rightarrow> int \<Rightarrow> real" where
  "fl_int a b =
     (let d = int (bitlength (nat a)) - int (bitlength (nat b));
          L = (if b * 2 ^ nat d \<le> a * 2 ^ nat (- d) then d else d - 1);
          e = L - 52
      in of_int (round_quot (a * 2 ^ nat (- e)) (b * 2 ^ nat e)) * 2 powi e)"

definition rq_pick :: "int \<Rightarrow> int \<Rightarrow> int \<Rightarrow> int" where
  "rq_pick f r b =
     (if 2 * r < b then f else if b < 2 * r then f + 1 else if even f then f else f + 1)"

definition rq_rem :: "int \<Rightarrow> int \<Rightarrow> int \<Rightarrow> int" where
  "rq_rem f a b = rq_pick f (a - f * b) b"

definition fl_round :: "int \<Rightarrow> int \<Rightarrow> int \<Rightarrow> real" where
  "fl_round a b e = of_int (round_quot (a * 2 ^ nat (- e)) (b * 2 ^ nat e)) * 2 powi e"

definition fl_exp :: "int \<Rightarrow> int \<Rightarrow> int \<Rightarrow> real" where
  "fl_exp a b d =
     fl_round a b ((if b * 2 ^ nat d \<le> a * 2 ^ nat (- d) then d else d - 1) - 52)"


section \<open>Seed provider\<close>

text \<open>
  What \<open>getSeed\<close> reads from the browser: the \<open>seed\<close> query parameter, the
  \<open>clue_seed\<close> entry of the session storage, and the integer
  \<open>Math.floor(Math.random() * 1e9)\<close> it would draw.
\<close>

record env =
  query_seed :: "jsstring option"
  clue_seed :: "jsstring option"
  random_int :: nat

definition digit36 :: "nat \<Rightarrow> codeunit" where
  "digit36 d = (if d < 10 then word_of_nat (48 + d) else word_of_nat (87 + d))"

fun toString36 :: "nat \<Rightarrow> jsstring" where
  "toString36 n = (if n < 36 then [digit36 n]
                   else toString36 (n div 36) @ [digit36 (n mod 36)])"

declare toString36.simps [simp del]

definition fresh_seed :: "env \<Rightarrow> jsstring \<times> env" where
  "fresh_seed e = (let s = toString36 (random_int e) in (s, e\<lparr>clue_seed := Some s\<rparr>))"

definition getSeed :: "env \<Rightarrow> jsstring \<times> env" where
  "getSeed e =
     (let e1 = (case query_seed e of
                  None \<Rightarrow> e
                | Some s \<Rightarrow> if s \<noteq> [] then e\<lparr>clue_seed := Some s\<rparr> else e)
      in case clue_seed e1 of
           None \<Rightarrow> fresh_seed e1
         | Some s \<Rightarrow> if s \<noteq> [] then (s, e1) else fresh_seed e1)"

section \<open>Integer hash and generator\<close>

definition fnv_round :: "32 word \<Rightarrow> codeunit \<Rightarrow> 32 word" where
  "fnv_round n c =
     (let n1 = n XOR ucast c
      in n1 + (push_bit 1 n1 + push_bit 4 n1 + push_bit 7 n1 + push_bit 8 n1
               + push_bit 24 n1))"

definition seedToInt :: "jsstring \<Rightarrow> 32 word" where
  "seedToInt str = foldl fnv_round 2166136261 str"

text \<open>The closure returned by \<open>xorshift32\<close> is modelled by its captured variable \<open>x\<close>.\<close>

type_synonym rng = "32 word"

definition xorshift32 :: "32 word \<Rightarrow> rng" where
  "xorshift32 seed = seed"

definition xorshift_step :: "32 word \<Rightarrow> 32 word" where
  "xorshift_step x =
     (let x1 = x XOR push_bit 13 x;
          x2 = x1 XOR drop_bit 17 x1;
          x3 = x2 XOR push_bit 5 x2
      in x3)"

text \<open>One call of the closure: the value returned and the new state.\<close>

definition rand :: "rng \<Rightarrow> real \<times> rng" where
  "rand x = (let x' = xorshift_step x in (fl (real (unat x') / 4294967295), x'))"

section \<open>Clue selector\<close>

definition WORDS :: "jsstring list" where
  "WORDS = map js
     [''ALPHA'', ''BRAVO'', ''CHARLIE'', ''DELTA'', ''ECHO'', ''FOXTROT'', ''GOLF'',
      ''HOTEL'', ''INDIA'', ''JULIET'', ''KILO'', ''LIMA'', ''MIKE'', ''NOVEMBER'',
      ''OSCAR'', ''PAPA'', ''QUEBEC'', ''ROMEO'', ''SIERRA'', ''TANGO'', ''UNIFORM'',
      ''VICTOR'', ''WHISKEY'', ''XRAY'', ''YANKEE'', ''ZULU'', ''PEN'', ''KEY'', ''GOLD'',
      ''STEEL'', ''BRIDGE'', ''RIVER'', ''JOIN'', ''PLACE'', ''STEEP'']"

definition CLUE_COUNT :: nat where
  "CLUE_COUNT = 10"

text \<open>
  The loop \<open>for (i = 0; i < CLUE_COUNT; i++)\<close>, by the number of iterations left.
  \<open>WORDS[idx]\<close> is \<open>undefined\<close> when \<open>idx\<close> is not an index of \<open>WORDS\<close>.
\<close>

fun select_loop :: "nat \<Rightarrow> rng \<Rightarrow> jsstring option list \<Rightarrow> jsstring option list \<times> rng" where
  "select_loop 0 g cl = (cl, g)"
| "select_loop (Suc k) g cl =
     (let (r, g') = rand g;
          idx = \<lfloor>fl (r * real (length WORDS))\<rfloor>
      in select_loop k g' (cl @ [js_nth WORDS idx]))"

definition selectClues :: "rng \<Rightarrow> jsstring option list \<times> rng" where
  "selectClues g = select_loop CLUE_COUNT g []"

section \<open>Grid placement\<close>

definition totalCells :: nat where
  "totalCells = 8 * 4"

text \<open>The four style properties the script sets on a cell; \<open>None\<close> is "never set".\<close>

record cell =
  prop_t :: "jsstring option"
  prop_c :: "jsstring option"
  background :: "jsstring option"
  prop_s :: "jsstring option"

definition blank_cell :: cell where
  "blank_cell = \<lparr>prop_t = None, prop_c = None, background = None, prop_s = None\<rparr>"

text \<open>
  \<open>toUpperCase\<close> on the ASCII range.  In \<open>norm\<close> it runs after the filter, so only
  ASCII reaches it; in \<open>charToken\<close> it runs on the characters of a word of \<open>WORDS\<close>.
\<close>

definition toUpperCase :: "codeunit \<Rightarrow> codeunit" where
  "toUpperCase c = (if 0x61 \<le> c \<and> c \<le> 0x7A then c - 0x20 else c)"

definition charToken :: "codeunit option \<Rightarrow> jsstring" where
  "charToken ch =
     (case ch of
        None \<Rightarrow> js ''.''
      | Some ch' \<Rightarrow>
          let c = toUpperCase ch'
          in if 0x41 \<le> c \<and> c \<le> 0x5A then [c]
             else if c = 0x2D then js ''-''
             else js ''.'')"

definition hexdigit :: "nat \<Rightarrow> codeunit" where
  "hexdigit d = (if d < 10 then word_of_nat (48 + d) else word_of_nat (87 + d))"

fun toString16 :: "nat \<Rightarrow> jsstring" where
  "toString16 n = (if n < 16 then [hexdigit n]
                   else toString16 (n div 16) @ [hexdigit (n mod 16)])"

declare toString16.simps [simp del]

definition padStart :: "nat \<Rightarrow> codeunit \<Rightarrow> jsstring \<Rightarrow> jsstring" where
  "padStart n c s = replicate (n - length s) c @ s"

text \<open>\<open>'#' + ((Math.floor(r * 0xFFFFFF)) >>> 0).toString(16).padStart(6, '0')\<close>\<close>

definition colorCode :: "real \<Rightarrow> jsstring" where
  "colorCode r =
     js ''#'' @ padStart 6 0x30 (toString16 (nat (\<lfloor>fl (r * 16777215)\<rfloor> mod 2 ^ 32)))"

definition quoted :: "jsstring \<Rightarrow> jsstring" where
  "quoted token = [0x22] @ token @ [0x22]"

definition gradient :: "jsstring \<Rightarrow> jsstring" where
  "gradient colour = js ''linear-gradient(90deg,'' @ colour @ js '' 0%, rgba(0,0,0,0) 100%)''"

record entry =
  word :: jsstring
  start :: int
  len :: nat

text \<open>
  The inner loop \<open>for (j = 0; j < len; j++)\<close>, by the number of iterations left.
  \<open>cells[start + j]\<close> outside the array is \<open>undefined\<close>, and \<open>cell.style\<close>
  then throws.
\<close>

fun paint :: "jsstring \<Rightarrow> int \<Rightarrow> nat \<Rightarrow> nat \<Rightarrow> rng \<Rightarrow> cell list
    \<Rightarrow> js_error + (cell list \<times> rng)" where
  "paint chars st 0 j g cs = Inr (cs, g)"
| "paint chars st (Suc k) j g cs =
     (case js_nth cs (st + int j) of
        None \<Rightarrow> Inl TypeError
      | Some c0 \<Rightarrow>
          let token = charToken (js_nth chars (int j));
              (r, g') = rand g;
              colour = colorCode r;
              c1 = c0\<lparr>prop_t := Some (quoted token), prop_c := Some colour,
                       background := Some (gradient colour), prop_s := Some (js ''0'')\<rparr>
          in paint chars st k (Suc j) g' (cs[nat (st + int j) := c1]))"

text \<open>
  The outer loop over \<open>clues\<close>.  \<open>w.split('')\<close> throws when \<open>w\<close> is
  \<open>undefined\<close>.
\<close>

fun place_loop :: "jsstring option list \<Rightarrow> rng \<Rightarrow> entry list \<Rightarrow> cell list
    \<Rightarrow> js_error + (entry list \<times> cell list \<times> rng)" where
  "place_loop [] g mp cs = Inr (mp, cs, g)"
| "place_loop (w # ws) g mp cs =
     (case w of
        None \<Rightarrow> Inl TypeError
      | Some chars \<Rightarrow>
          let n = min (length chars) 6;
              (r, g1) = rand g;
              st = \<lfloor>fl (r * (real totalCells - real n))\<rfloor>;
              mp1 = mp @ [\<lparr>word = chars, start = st, len = n\<rparr>]
          in (case paint chars st n 0 g1 cs of
                Inl e \<Rightarrow> Inl e
              | Inr (cs1, g2) \<Rightarrow> place_loop ws g2 mp1 cs1))"

text \<open>Everything the script derives from the seed before any handler is installed.\<close>

record page =
  clues :: "jsstring option list"
  mapping :: "entry list"
  cells :: "cell list"

definition derive :: "jsstring \<Rightarrow> js_error + page" where
  "derive seed =
     (let (cl, g1) = selectClues (xorshift32 (seedToInt seed))
      in case place_loop cl g1 [] (replicate totalCells blank_cell) of
           Inl e \<Rightarrow> Inl e
         | Inr (mp, cs, g2) \<Rightarrow> Inr \<lparr>clues = cl, mapping = mp, cells = cs\<rparr>)"

definition load :: "env \<Rightarrow> js_error + page" where
  "load e = derive (fst (getSeed e))"

text \<open>
  The style that one iteration of the inner loop leaves on its cell, for character
  \<open>j\<close> of the word, when \<open>g\<close> is the generator state at the start of that
  iteration.  All four properties are set, so the earlier style of the cell is gone.
\<close>

definition paint_cell :: "jsstring \<Rightarrow> nat \<Rightarrow> rng \<Rightarrow> cell" where
  "paint_cell chars j g =
     (let colour = colorCode (fst (rand g))
      in \<lparr>prop_t = Some (quoted (charToken (js_nth chars (int j)))), prop_c = Some colour,
          background = Some (gradient colour), prop_s = Some (js ''0'')\<rparr>)"

text \<open>The cells \<open>[start, start + len)\<close> of a mapping entry.\<close>

definition covers :: "entry \<Rightarrow> int \<Rightarrow> bool" where
  "covers e k \<longleftrightarrow> start e \<le> k \<and> k < start e + int (len e)"

text \<open>
  The entries that the outer loop pushes, each with the generator state at the start
  of the word's inner loop: the placement without the cells.
\<close>

fun layout :: "jsstring option list \<Rightarrow> rng \<Rightarrow> (entry \<times> rng) list" where
  "layout [] g = []"
| "layout (None # ws) g = []"
| "layout (Some chars # ws) g =
     (let n = min (length chars) 6;
          (r, g1) = rand g;
          st = \<lfloor>fl (r * (real totalCells - real n))\<rfloor>
      in (\<lparr>word = chars, start = st, len = n\<rparr>, g1) # layout ws ((xorshift_step ^^ n) g1))"

text \<open>
  One generator step on the unsigned value of the state, the form in which concrete
  states are computed (lemma \<open>unat_xorshift_step\<close>).
\<close>

definition step_nat :: "nat \<Rightarrow> nat" where
  "step_nat n =
     (let x1 = n XOR take_bit 32 (push_bit 13 n);
          x2 = x1 XOR drop_bit 17 x1;
          x3 = x2 XOR take_bit 32 (push_bit 5 x2)
      in x3)"

section \<open>Validation\<close>

text \<open>The character class \<open>[A-Za-z0-9\-]\<close> that \<open>norm\<close> keeps.\<close>

definition allowed :: "codeunit \<Rightarrow> bool" where
  "allowed c \<longleftrightarrow>
     (0x41 \<le> c \<and> c \<le> 0x5A) \<or> (0x61 \<le> c \<and> c \<le> 0x7A) \<or> (0x30 \<le> c \<and> c \<le> 0x39)
     \<or> c = 0x2D"

text \<open>\<open>norm(s)\<close>, named \<open>norm_str\<close> here; \<open>None\<close> is an \<open>undefined\<close> argument, which \<open>s || ''\<close> turns into \<open>''\<close>.\<close>

definition norm_str :: "jsstring option \<Rightarrow> jsstring" where
  "norm_str s = map toUpperCase (filter allowed (case s of None \<Rightarrow> [] | Some v \<Rightarrow> v))"

text \<open>\<open>Array.prototype.join\<close>: an \<open>undefined\<close> element contributes the empty string.\<close>

fun join :: "jsstring \<Rightarrow> jsstring option list \<Rightarrow> jsstring" where
  "join sep [] = []"
| "join sep [w] = (case w of None \<Rightarrow> [] | Some v \<Rightarrow> v)"
| "join sep (w # ws) = (case w of None \<Rightarrow> [] | Some v \<Rightarrow> v) @ sep @ join sep ws"

text \<open>
  The texts the handlers show, one constructor for each message of the script:
  the lines appended by \<open>clog\<close>, the contents of \<open>hintBox\<close>, of \<open>inst\<close> and of
  \<open>finalMsg\<close>.
\<close>

datatype log_line =
    LogDevApi
  | LogUseElements
  | LogCorrect "jsstring option"
  | LogIncorrect
  | LogHint int int nat
  | LogFinalSuccess
  | LogFinalIncorrect

datatype hint_text = PleaseEnter | IncorrectHint | HintAt int int nat

datatype inst_text = StepInst int | AllFound

datatype final_text = Congratulations | PassphraseIncorrect

text \<open>The mutable state the handlers read and write; the elements are taken to exist.\<close>

record ui =
  current :: int
  stepNum :: int
  inst :: inst_text
  answer :: jsstring
  hintBox :: "hint_text option"
  consoleLog :: "log_line list"
  finalInput :: jsstring
  finalInput_disabled :: bool
  finalBtn_disabled :: bool
  finalMsg :: "final_text option"

definition updateUI :: "ui \<Rightarrow> ui" where
  "updateUI s = s\<lparr>stepNum := current s, inst := StepInst (current s)\<rparr>"

text \<open>
  Modelled from the spec: \<open>index.html\<close>, which fixes the initial \<open>disabled\<close>
  attributes of \<open>finalInput\<close> and \<open>finalBtn\<close>, is not among the sources.  Section 4.6
  has the passphrase input enabled by the transition into \<open>Final\<close>, so both start
  disabled.  The rest is the state after the script has run: \<open>current = 1\<close>, the two
  start-up lines logged, \<open>updateUI\<close> called once.
\<close>

definition initial :: ui where
  "initial = updateUI
     \<lparr>current = 1, stepNum = 0, inst = StepInst 0, answer = [], hintBox = None,
      consoleLog = [LogDevApi, LogUseElements], finalInput = [],
      finalInput_disabled = True, finalBtn_disabled = True, finalMsg = None\<rparr>"

text \<open>The click handler of \<open>submitBtn\<close>.\<close>

definition submit_click :: "jsstring option list \<Rightarrow> ui \<Rightarrow> ui" where
  "submit_click cl s =
     (let val = norm_str (Some (answer s));
          expected = norm_str (js_get cl (current s - 1))
      in if val = [] then s\<lparr>hintBox := Some PleaseEnter\<rparr>
         else if val = expected then
           let s1 = s\<lparr>consoleLog := consoleLog s @ [LogCorrect (js_get cl (current s - 1))],
                      current := current s + 1, answer := []\<rparr>
           in if int CLUE_COUNT < current s1
              then s1\<lparr>finalInput_disabled := False, finalBtn_disabled := False,
                      inst := AllFound\<rparr>
              else updateUI s1
         else s\<lparr>consoleLog := consoleLog s @ [LogIncorrect], hintBox := Some IncorrectHint\<rparr>)"

text \<open>The click handler of \<open>hintBtn\<close>.\<close>

definition hint_click :: "entry list \<Rightarrow> ui \<Rightarrow> ui" where
  "hint_click mp s =
     (case js_nth mp (current s - 1) of
        None \<Rightarrow> s
      | Some m \<Rightarrow>
          s\<lparr>consoleLog := consoleLog s @ [LogHint (current s - 1) (start m) (len m)],
            hintBox := Some (HintAt (current s - 1) (start m) (len m))\<rparr>)"

text \<open>The click handler of \<open>finalBtn\<close>.\<close>

definition final_click :: "jsstring option list \<Rightarrow> ui \<Rightarrow> ui" where
  "final_click cl s =
     (let given = norm_str (Some (finalInput s));
          expected = norm_str (Some (join (js ''-'') cl))
      in if given = expected
         then s\<lparr>finalMsg := Some Congratulations,
                consoleLog := consoleLog s @ [LogFinalSuccess]\<rparr>
         else s\<lparr>finalMsg := Some PassphraseIncorrect,
                consoleLog := consoleLog s @ [LogFinalIncorrect]\<rparr>)"

definition solved :: "ui \<Rightarrow> bool" where
  "solved s \<longleftrightarrow> finalMsg s = Some Congratulations"

text \<open>
  What the player can do to the page.  A disabled control takes no input and fires no
  click event.  The regenerate button reloads the page, which starts again from
  \<open>initial\<close> with the clues of the new seed.
\<close>

datatype event =
    Type_answer jsstring
  | Type_final jsstring
  | Click_submit
  | Click_hint
  | Click_final

definition fire :: "page \<Rightarrow> ui \<Rightarrow> event \<Rightarrow> ui" where
  "fire pg s ev =
     (case ev of
        Type_answer v \<Rightarrow> s\<lparr>answer := v\<rparr>
      | Type_final v \<Rightarrow> if finalInput_disabled s then s else s\<lparr>finalInput := v\<rparr>
      | Click_submit \<Rightarrow> submit_click (clues pg) s
      | Click_hint \<Rightarrow> hint_click (mapping pg) s
      | Click_final \<Rightarrow> if finalBtn_disabled s then s else final_click (clues pg) s)"

definition run :: "page \<Rightarrow> event list \<Rightarrow> ui" where
  "run pg evs = foldl (fire pg) initial evs"


section \<open>Rounding to a double\<close>

lemma bitlength_bounds:
  "0 < n \<Longrightarrow> 2 ^ (bitlength n - 1) \<le> n \<and> n < 2 ^ bitlength n"
proof (induction n rule: bitlength.induct)
  case (1 n)
  show ?case
  proof (cases "n div 2 = 0")
    case True
    with "1.prems" have "n = 1" by arith
    then show ?thesis by (simp add: bitlength.simps)
  next
    case False
    define P where "P = (2::nat) ^ bitlength (n div 2)"
    define Q where "Q = (2::nat) ^ (bitlength (n div 2) - 1)"
    from False 1 have IH: "Q \<le> n div 2" "n div 2 < P"
      by (simp_all add: P_def Q_def)
    have bl: "bitlength n = Suc (bitlength (n div 2))"
      using "1.prems" by (subst bitlength.simps) simp
    from False have "0 < bitlength (n div 2)"
      by (subst bitlength.simps) simp
    then have "bitlength (n div 2) = Suc (bitlength (n div 2) - 1)" by simp
    then have PQ: "P = 2 * Q" unfolding P_def Q_def by (metis power_Suc)
    from IH PQ have "P \<le> n \<and> n < 2 * P" by arith
    then show ?thesis by (simp add: bl P_def)
  qed
qed

lemma bitlength_pos: "0 < n \<Longrightarrow> 0 < bitlength n"
  by (subst bitlength.simps) simp

lemma real_pow2_le:
  "2 ^ k \<le> (n::nat) \<Longrightarrow> (2::real) ^ k \<le> real n"
proof -
  assume "2 ^ k \<le> n"
  then have "real (2 ^ k) \<le> real n" by (rule of_nat_mono)
  then show ?thesis by simp
qed

lemma real_less_pow2:
  "(n::nat) < 2 ^ k \<Longrightarrow> real n + 1 \<le> (2::real) ^ k"
proof -
  assume "n < 2 ^ k"
  then have "Suc n \<le> 2 ^ k" by simp
  then have "real (Suc n) \<le> real (2 ^ k)" by (rule of_nat_mono)
  then show ?thesis by simp
qed

lemma ilog2_bounds:
  assumes "0 < q"
  shows "2 powi ilog2 q \<le> q" and "q < 2 powi (ilog2 q + 1)"
proof -
  have "2 powi ilog2 q \<le> q \<and> q < 2 powi (ilog2 q + 1)"
  proof (cases "1 \<le> q")
    case True
    define n where "n = nat \<lfloor>q\<rfloor>"
    from True have fl1: "1 \<le> \<lfloor>q\<rfloor>" by (simp add: le_floor_iff)
    then have n1: "0 < n" by (simp add: n_def)
    from fl1 have rn: "real n = of_int \<lfloor>q\<rfloor>" by (simp add: n_def)
    have nq: "real n \<le> q" and qn: "q < real n + 1" unfolding rn by linarith+
    define b where "b = bitlength n"
    from bitlength_bounds [OF n1] have bb: "2 ^ (b - 1) \<le> n" "n < 2 ^ b"
      by (simp_all add: b_def)
    from n1 have bpos: "0 < b" unfolding b_def by (rule bitlength_pos)
    have e: "ilog2 q = int b - 1" using True by (simp add: ilog2_def n_def b_def)
    have "int b - 1 = int (b - 1)" using bpos by linarith
    then have p1: "(2::real) powi (int b - 1) = 2 ^ (b - 1)" by (metis power_int_of_nat)
    have p2: "(2::real) powi (int b - 1 + 1) = 2 ^ b" by simp
    have "(2::real) ^ (b - 1) \<le> q" using real_pow2_le [OF bb(1)] nq by linarith
    moreover have "q < (2::real) ^ b" using real_less_pow2 [OF bb(2)] qn by linarith
    ultimately show ?thesis unfolding e p1 p2 by simp
  next
    case False
    with assms have t1: "1 < 1 / q" by simp
    define m where "m = nat (\<lceil>1 / q\<rceil> - 1)"
    from t1 have c2: "2 \<le> \<lceil>1 / q\<rceil>" by (simp add: le_ceiling_iff)
    then have m1: "0 < m" by (simp add: m_def)
    from c2 have "0 \<le> \<lceil>1 / q\<rceil> - 1" by linarith
    then have "real m = of_int (\<lceil>1 / q\<rceil> - 1)" unfolding m_def by (rule of_nat_nat)
    then have rm: "real m = of_int \<lceil>1 / q\<rceil> - 1" by simp
    have mlt: "real m < 1 / q" and mge: "1 / q \<le> real m + 1" unfolding rm by linarith+
    from bitlength_pos [OF m1] obtain c where bc: "bitlength m = Suc c"
      by (cases "bitlength m") auto
    from bitlength_bounds [OF m1] have bb: "2 ^ c \<le> m" "m < 2 ^ Suc c"
      by (simp_all add: bc)
    have "ilog2 q = - int (bitlength m)" using False by (simp add: ilog2_def m_def)
    then have e: "ilog2 q = - int (Suc c)" by (simp only: bc)
    have p1: "(2::real) powi (- int (Suc c)) = 1 / 2 ^ Suc c"
      by (simp only: power_int_minus_divide power_int_of_nat)
    have "- int (Suc c) + 1 = - int c" by simp
    then have p2: "(2::real) powi (- int (Suc c) + 1) = 1 / 2 ^ c"
      by (simp only: power_int_minus_divide power_int_of_nat)
    have "(2::real) ^ c < 1 / q" using real_pow2_le [OF bb(1)] mlt by linarith
    with assms have "2 ^ c * q < 1" by (simp add: pos_less_divide_eq)
    then have u: "q < 1 / 2 ^ c" by (simp add: pos_less_divide_eq mult.commute)
    have "1 / q \<le> 2 ^ Suc c" using real_less_pow2 [OF bb(2)] mge by linarith
    with assms have "1 \<le> 2 ^ Suc c * q" by (simp add: pos_divide_le_eq)
    then have l: "1 / 2 ^ Suc c \<le> q" by (simp add: pos_divide_le_eq mult.commute)
    from l u show ?thesis unfolding e p1 p2 by simp
  qed
  then show "2 powi ilog2 q \<le> q" and "q < 2 powi (ilog2 q + 1)" by simp_all
qed

lemma ilog2_mono:
  assumes "0 < p" "p \<le> q"
  shows "ilog2 p \<le> ilog2 q"
proof -
  from assms have "0 < q" by simp
  have "(2::real) powi ilog2 p \<le> p" using ilog2_bounds(1) [OF assms(1)] .
  also have "p \<le> q" by fact
  also have "q < 2 powi (ilog2 q + 1)" using ilog2_bounds(2) [OF \<open>0 < q\<close>] .
  finally have "ilog2 p < ilog2 q + 1"
    by (metis linorder_not_less one_le_numeral power_int_increasing)
  then show ?thesis by simp
qed

lemma rne_cases:
  "rne s = \<lfloor>s\<rfloor> \<or> rne s = \<lfloor>s\<rfloor> + 1"
  by (simp add: rne_def Let_def)

lemma rne_of_int [simp]: "rne (of_int n) = n"
  by (simp add: rne_def)

lemma rne_mono:
  assumes "s \<le> t"
  shows "rne s \<le> rne t"
proof (cases "\<lfloor>s\<rfloor> = \<lfloor>t\<rfloor>")
  case True
  with assms show ?thesis by (auto simp: rne_def Let_def)
next
  case False
  with assms have "\<lfloor>s\<rfloor> + 1 \<le> \<lfloor>t\<rfloor>" using floor_mono [OF assms] by linarith
  moreover have "rne s \<le> \<lfloor>s\<rfloor> + 1" using rne_cases [of s] by auto
  moreover have "\<lfloor>t\<rfloor> \<le> rne t" using rne_cases [of t] by auto
  ultimately show ?thesis by linarith
qed


lemma fl_pos_eq:
  "0 < q \<Longrightarrow> fl q = of_int (rne (q / 2 powi (ilog2 q - 52))) * 2 powi (ilog2 q - 52)"
  by (simp add: fl_def Let_def)

lemma fl_zero [simp]: "fl 0 = 0"
  by (simp add: fl_def)

lemma fl_bounds:
  assumes "0 < q"
  shows "2 powi ilog2 q \<le> fl q" and "fl q \<le> 2 powi (ilog2 q + 1)"
proof -
  define e where "e = ilog2 q - 52"
  define s where "s = q / 2 powi e"
  have epos: "0 < (2::real) powi e" by simp
  have lo: "(2::real) powi ilog2 q = 2 ^ 52 * 2 powi e"
    unfolding e_def by (simp add: power_int_diff)
  have hi: "(2::real) powi (ilog2 q + 1) = 2 ^ 53 * 2 powi e"
    unfolding e_def by (simp add: power_int_diff power_int_add)
  from ilog2_bounds(1) [OF assms] have "2 ^ 52 * 2 powi e \<le> q" by (simp only: lo)
  then have s_lo: "2 ^ 52 \<le> s" unfolding s_def using epos by (simp add: pos_le_divide_eq)
  from ilog2_bounds(2) [OF assms] have "q < 2 ^ 53 * 2 powi e" by (simp only: hi)
  then have s_hi: "s < 2 ^ 53" unfolding s_def using epos by (simp add: pos_divide_less_eq)
  have "real_of_int (2 ^ 52) \<le> s" using s_lo by simp
  then have f_lo: "2 ^ 52 \<le> \<lfloor>s\<rfloor>" by (simp only: le_floor_iff)
  have "s < real_of_int (2 ^ 53)" using s_hi by simp
  then have f_hi: "\<lfloor>s\<rfloor> < 2 ^ 53" by (simp only: floor_less_iff)
  from rne_cases [of s] f_lo f_hi have r: "2 ^ 52 \<le> rne s" "rne s \<le> 2 ^ 53" by auto
  from r(1) have "real_of_int (2 ^ 52) \<le> of_int (rne s)" by (simp only: of_int_le_iff)
  then have r1: "2 ^ 52 \<le> real_of_int (rne s)" by simp
  from r(2) have "real_of_int (rne s) \<le> of_int (2 ^ 53)" by (simp only: of_int_le_iff)
  then have r2: "real_of_int (rne s) \<le> 2 ^ 53" by simp
  have f: "fl q = of_int (rne s) * 2 powi e"
    using assms by (simp add: fl_pos_eq s_def e_def)
  show "2 powi ilog2 q \<le> fl q"
    unfolding lo f using r1 epos by (simp only: mult_le_cancel_right_pos)
  show "fl q \<le> 2 powi (ilog2 q + 1)"
    unfolding hi f using r2 epos by (simp only: mult_le_cancel_right_pos)
qed

lemma fl_mono:
  assumes "0 \<le> p" "p \<le> q"
  shows "fl p \<le> fl q"
proof (cases "p = 0")
  case True
  show ?thesis
  proof (cases "q = 0")
    case True
    with \<open>p = 0\<close> show ?thesis by simp
  next
    case False
    with assms have "0 < q" by simp
    from fl_bounds(1) [OF this] have "0 < fl q"
      by (rule less_le_trans [rotated]) simp
    with \<open>p = 0\<close> show ?thesis by simp
  qed
next
  case False
  with assms have pp: "0 < p" and qp: "0 < q" by simp_all
  from ilog2_mono [OF pp assms(2)] have le: "ilog2 p \<le> ilog2 q" .
  show ?thesis
  proof (cases "ilog2 p = ilog2 q")
    case True
    define e where "e = ilog2 q - 52"
    have epos: "0 < (2::real) powi e" by simp
    have "p / 2 powi e \<le> q / 2 powi e"
      by (rule divide_right_mono [OF assms(2)]) simp
    then have "rne (p / 2 powi e) \<le> rne (q / 2 powi e)" by (rule rne_mono)
    then have "real_of_int (rne (p / 2 powi e)) \<le> of_int (rne (q / 2 powi e))"
      by (simp only: of_int_le_iff)
    then have "real_of_int (rne (p / 2 powi e)) * 2 powi e
        \<le> real_of_int (rne (q / 2 powi e)) * 2 powi e"
      using epos by (simp only: mult_le_cancel_right_pos)
    then show ?thesis using pp qp True by (simp add: fl_pos_eq e_def)
  next
    case False
    with le have "ilog2 p + 1 \<le> ilog2 q" by simp
    then have "(2::real) powi (ilog2 p + 1) \<le> 2 powi ilog2 q"
      by (rule power_int_increasing) simp
    with fl_bounds(2) [OF pp] fl_bounds(1) [OF qp] show ?thesis by linarith
  qed
qed

lemma fl_exact:
  assumes "0 < n" "n < 2 ^ 53"
  shows "fl (of_int n / 2 ^ k) = of_int n / 2 ^ k"
proof -
  define q :: real where "q = of_int n / 2 ^ k"
  from assms(1) have qp: "0 < q" by (simp add: q_def)
  define L where "L = ilog2 q"
  have "real_of_int n < of_int (2 ^ 53)" using assms(2) by (simp only: of_int_less_iff)
  then have "q < 2 ^ 53 / 2 ^ k" by (simp add: q_def divide_strict_right_mono)
  also have "(2::real) ^ 53 / 2 ^ k = 2 powi (53 - int k)"
    by (simp add: power_int_diff)
  finally have "2 powi L < (2::real) powi (53 - int k)"
    using ilog2_bounds(1) [OF qp] by (simp add: L_def)
  then have "L < 53 - int k"
    by (metis linorder_not_less one_le_numeral power_int_increasing)
  then have d: "0 \<le> 52 - int k - L" by simp
  define N where "N = n * 2 ^ nat (52 - int k - L)"
  have "(2::real) powi (52 - int k - L) = 2 ^ nat (52 - int k - L)"
    using d by (rule power_int_nonneg_exp)
  moreover have "(2::real) powi (52 - int k - L) = 2 powi (- int k) / 2 powi (L - 52)"
  proof -
    have "(2::real) powi (- int k - (L - 52)) = 2 powi (- int k) / 2 powi (L - 52)"
      by (rule power_int_diff) simp
    moreover have "52 - int k - L = - int k - (L - 52)" by simp
    ultimately show ?thesis by (simp only:)
  qed
  ultimately have "2 ^ nat (52 - int k - L) = (2::real) powi (- int k) / 2 powi (L - 52)"
    by simp
  then have "real_of_int N = of_int n * (2 powi (- int k) / 2 powi (L - 52))"
    by (simp add: N_def)
  also have "\<dots> = q / 2 powi (L - 52)"
    by (simp add: q_def power_int_minus_divide)
  finally have s: "q / 2 powi (L - 52) = of_int N" by simp
  have "fl q = of_int (rne (q / 2 powi (L - 52))) * 2 powi (L - 52)"
    using qp by (simp add: fl_pos_eq L_def)
  also have "\<dots> = of_int N * 2 powi (L - 52)" by (simp only: s rne_of_int)
  also have "\<dots> = q / 2 powi (L - 52) * 2 powi (L - 52)" by (simp only: s)
  also have "\<dots> = q" by simp
  finally show ?thesis by (simp only: q_def)
qed


lemma rne_quot:
  assumes "0 < b"
  shows "rne (of_int a / of_int b) = round_quot a b"
proof -
  have f: "\<lfloor>real_of_int a / real_of_int b\<rfloor> = a div b" by (rule floor_divide_of_int_eq)
  have "real_of_int a / real_of_int b = real_of_int (a div b) + real_of_int (a mod b) / real_of_int b"
    by (rule of_int_div_aux)
  then have d: "real_of_int a / real_of_int b - real_of_int (a div b) = real_of_int (a mod b) / real_of_int b"
    by simp
  have bp: "0 < real_of_int b" using assms by simp
  have lt: "real_of_int (a mod b) / real_of_int b < 1 / 2 \<longleftrightarrow> 2 * (a mod b) < b"
  proof -
    have "real_of_int (a mod b) / real_of_int b < 1 / 2 \<longleftrightarrow> real_of_int (a mod b) < real_of_int b / 2"
      using bp by (simp add: pos_divide_less_eq)
    also have "\<dots> \<longleftrightarrow> real_of_int (2 * (a mod b)) < real_of_int b"
      by (simp add: mult.commute)
    also have "\<dots> \<longleftrightarrow> 2 * (a mod b) < b" by (simp only: of_int_less_iff)
    finally show ?thesis .
  qed
  have gt: "1 / 2 < real_of_int (a mod b) / real_of_int b \<longleftrightarrow> b < 2 * (a mod b)"
  proof -
    have "1 / 2 < real_of_int (a mod b) / real_of_int b \<longleftrightarrow> real_of_int b / 2 < real_of_int (a mod b)"
      using bp by (simp add: pos_less_divide_eq)
    also have "\<dots> \<longleftrightarrow> real_of_int b < real_of_int (2 * (a mod b))"
      by (simp add: mult.commute)
    also have "\<dots> \<longleftrightarrow> b < 2 * (a mod b)" by (simp only: of_int_less_iff)
    finally show ?thesis .
  qed
  show ?thesis
    unfolding rne_def round_quot_def Let_def f d lt gt ..
qed

lemma pow2_less_imp:
  "(2::real) powi a < 2 powi b \<Longrightarrow> a < b"
  by (metis linorder_not_less one_le_numeral power_int_increasing)

lemma ilog2_unique:
  assumes "0 < q" "2 powi L \<le> q" "q < 2 powi (L + 1)"
  shows "ilog2 q = L"
proof -
  from ilog2_bounds(1) [OF assms(1)] assms(3)
  have "(2::real) powi ilog2 q < 2 powi (L + 1)" by linarith
  then have "ilog2 q < L + 1" by (rule pow2_less_imp)
  moreover
  from ilog2_bounds(2) [OF assms(1)] assms(2)
  have "(2::real) powi L < 2 powi (ilog2 q + 1)" by linarith
  then have "L < ilog2 q + 1" by (rule pow2_less_imp)
  ultimately show ?thesis by simp
qed

lemma powi_split: "(2::real) powi e = 2 ^ nat e / 2 ^ nat (- e)"
proof (cases "0 \<le> e")
  case True
  then show ?thesis by (simp add: power_int_nonneg_exp)
next
  case False
  then have "e = - int (nat (- e))" by simp
  then have "(2::real) powi e = 2 powi (- int (nat (- e)))" by simp
  also have "\<dots> = 1 / 2 ^ nat (- e)" by (simp only: power_int_minus_divide power_int_of_nat)
  finally show ?thesis using False by simp
qed

lemma quot_scale:
  assumes "0 < b"
  shows "real_of_int a / real_of_int b / 2 powi e
         = real_of_int (a * 2 ^ nat (- e)) / real_of_int (b * 2 ^ nat e)"
  by (simp add: powi_split [of e])


lemma bitlength_real_bounds:
  assumes "0 < a"
  shows "2 powi (int (bitlength (nat a)) - 1) \<le> real_of_int a"
    and "real_of_int a < 2 powi int (bitlength (nat a))"
proof -
  from assms have n: "0 < nat a" and r: "real (nat a) = real_of_int a" by simp_all
  from bitlength_pos [OF n] obtain c where c: "bitlength (nat a) = Suc c"
    by (cases "bitlength (nat a)") auto
  from bitlength_bounds [OF n] have "2 ^ c \<le> nat a" "nat a < 2 ^ Suc c"
    by (simp_all add: c)
  then have "(2::real) ^ c \<le> real (nat a)" "real (nat a) + 1 \<le> 2 ^ Suc c"
    by (simp_all only: real_pow2_le real_less_pow2)
  then have "(2::real) ^ c \<le> real_of_int a" "real_of_int a < 2 ^ Suc c"
    unfolding r by linarith+
  moreover have "int (Suc c) - 1 = int c" by simp
  then have "(2::real) powi (int (Suc c) - 1) = 2 ^ c" by (simp only: power_int_of_nat)
  moreover have "(2::real) powi int (Suc c) = 2 ^ Suc c" by (rule power_int_of_nat)
  ultimately show "2 powi (int (bitlength (nat a)) - 1) \<le> real_of_int a"
    and "real_of_int a < 2 powi int (bitlength (nat a))"
    unfolding c by simp_all
qed

lemma fl_int_correct:
  assumes "0 < a" "0 < b"
  shows "fl (of_int a / of_int b) = fl_int a b"
proof -
  define q where "q = real_of_int a / real_of_int b"
  define la where "la = int (bitlength (nat a))"
  define lb where "lb = int (bitlength (nat b))"
  define d where "d = la - lb"
  define L where "L = (if b * 2 ^ nat d \<le> a * 2 ^ nat (- d) then d else d - 1)"
  define e where "e = L - 52"
  from assms have ra: "0 < real_of_int a" and rb: "0 < real_of_int b" by simp_all
  then have qp: "0 < q" by (simp add: q_def)
  note ba = bitlength_real_bounds [OF assms(1), folded la_def]
  note bb = bitlength_real_bounds [OF assms(2), folded lb_def]
  have "q < 2 powi la / 2 powi (lb - 1)"
    unfolding q_def using ra ba(2) bb(1) by (intro frac_less) simp_all
  also have "\<dots> = 2 powi (d + 1)"
  proof -
    have "(2::real) powi (la - (lb - 1)) = 2 powi la / 2 powi (lb - 1)"
      by (rule power_int_diff) simp
    moreover have "d + 1 = la - (lb - 1)" by (simp add: d_def)
    ultimately show ?thesis by (simp only:)
  qed
  finally have up: "q < 2 powi (d + 1)" .
  have "(2::real) powi (d - 1) = 2 powi (la - 1) / 2 powi lb"
  proof -
    have "(2::real) powi ((la - 1) - lb) = 2 powi (la - 1) / 2 powi lb"
      by (rule power_int_diff) simp
    moreover have "d - 1 = (la - 1) - lb" by (simp add: d_def)
    ultimately show ?thesis by (simp only:)
  qed
  also have "\<dots> \<le> q"
    unfolding q_def using ra rb ba(1) bb(2) by (intro frac_le) simp_all
  finally have lo: "2 powi (d - 1) \<le> q" .
  have test: "(b * 2 ^ nat d \<le> a * 2 ^ nat (- d)) \<longleftrightarrow> 2 powi d \<le> q"
  proof -
    have "2 powi d \<le> q \<longleftrightarrow> 2 ^ nat d / 2 ^ nat (- d) \<le> real_of_int a / real_of_int b"
      by (simp only: powi_split [of d] q_def)
    also have "\<dots> \<longleftrightarrow> 2 ^ nat d * real_of_int b \<le> real_of_int a * 2 ^ nat (- d)"
      using rb by (simp add: pos_le_divide_eq pos_divide_le_eq)
    also have "\<dots> \<longleftrightarrow> real_of_int (b * 2 ^ nat d) \<le> real_of_int (a * 2 ^ nat (- d))"
      by (simp add: mult.commute)
    also have "\<dots> \<longleftrightarrow> b * 2 ^ nat d \<le> a * 2 ^ nat (- d)" by (simp only: of_int_le_iff)
    finally show ?thesis by simp
  qed
  have "2 powi L \<le> q \<and> q < 2 powi (L + 1)"
  proof (cases "b * 2 ^ nat d \<le> a * 2 ^ nat (- d)")
    case True
    then have "L = d" by (simp add: L_def)
    with True test up show ?thesis by simp
  next
    case False
    then have "L = d - 1" by (simp add: L_def)
    with False test lo show ?thesis by simp
  qed
  then have il: "ilog2 q = L" using qp by (intro ilog2_unique) simp_all
  have bp: "0 < b * 2 ^ nat e" using assms(2) by simp
  have "fl q = of_int (rne (q / 2 powi e)) * 2 powi e"
    using qp by (simp add: fl_pos_eq il e_def)
  also have "q / 2 powi e = real_of_int (a * 2 ^ nat (- e)) / real_of_int (b * 2 ^ nat e)"
    unfolding q_def by (rule quot_scale [OF assms(2)])
  also have "rne \<dots> = round_quot (a * 2 ^ nat (- e)) (b * 2 ^ nat e)"
    by (rule rne_quot [OF bp])
  finally show ?thesis
    by (simp add: q_def fl_int_def Let_def e_def L_def d_def la_def lb_def)
qed


lemma round_quot_eval: "round_quot a b = rq_rem (a div b) a b"
  by (simp add: round_quot_def rq_rem_def rq_pick_def Let_def minus_mult_div_eq_mod mult.commute)

lemma fl_int_eval: "fl_int a b = fl_exp a b (int (bitlength (nat a)) - int (bitlength (nat b)))"
  by (simp add: fl_int_def fl_exp_def fl_round_def Let_def)

lemma fl_numeral_quot:
  "fl (numeral a / numeral b) = fl_int (numeral a) (numeral b)"
  using fl_int_correct [of "numeral a" "numeral b"] by simp

lemma fl_numeral:
  "fl (numeral a) = fl_int (numeral a) 1"
  using fl_int_correct [of "numeral a" 1] by simp

lemma bitlength_int_eval:
  "int (bitlength n) = (if n = 0 then 0 else int (bitlength (n div 2)) + 1)"
  by (subst bitlength.simps) simp

lemmas eval_fl = fl_numeral_quot fl_numeral fl_int_eval fl_exp_def fl_round_def round_quot_eval
  rq_rem_def rq_pick_def bitlength_int_eval

subsection \<open>Rounding error\<close>

lemma rne_error: "\<bar>real_of_int (rne s) - s\<bar> \<le> 1 / 2"
proof -
  define d where "d = s - of_int \<lfloor>s\<rfloor>"
  have d: "0 \<le> d" "d < 1" unfolding d_def by linarith+
  have s: "s = of_int \<lfloor>s\<rfloor> + d" by (simp add: d_def)
  have r: "rne s = (if d < 1 / 2 then \<lfloor>s\<rfloor> else if 1 / 2 < d then \<lfloor>s\<rfloor> + 1
                   else if even \<lfloor>s\<rfloor> then \<lfloor>s\<rfloor> else \<lfloor>s\<rfloor> + 1)"
    by (simp only: rne_def Let_def d_def)
  have "(rne s = \<lfloor>s\<rfloor> \<and> d \<le> 1 / 2) \<or> (rne s = \<lfloor>s\<rfloor> + 1 \<and> 1 / 2 \<le> d)"
  proof (cases "d < 1 / 2")
    case True
    with r show ?thesis by simp
  next
    case False
    show ?thesis
    proof (cases "1 / 2 < d")
      case True
      with r False show ?thesis by simp
    next
      case eq: False
      with False have "d \<le> 1 / 2" "1 / 2 \<le> d" by simp_all
      moreover from r False eq have "rne s = \<lfloor>s\<rfloor> \<or> rne s = \<lfloor>s\<rfloor> + 1" by simp
      ultimately show ?thesis by blast
    qed
  qed
  then show ?thesis
  proof (elim disjE conjE)
    assume a: "rne s = \<lfloor>s\<rfloor>" "d \<le> 1 / 2"
    then have "real_of_int (rne s) - s = - d" using s by simp
    with a d show ?thesis by simp
  next
    assume a: "rne s = \<lfloor>s\<rfloor> + 1" "1 / 2 \<le> d"
    then have "real_of_int (rne s) - s = 1 - d" using s by simp
    with a d show ?thesis by simp
  qed
qed

lemma fl_error:
  assumes "0 < q"
  shows "\<bar>fl q - q\<bar> \<le> q / 2 ^ 53"
proof -
  define e where "e = ilog2 q - 52"
  define s where "s = q / 2 powi e"
  have epos: "0 < (2::real) powi e" by simp
  have q: "q = s * 2 powi e" by (simp add: s_def)
  have f: "fl q = of_int (rne s) * 2 powi e"
    using assms by (simp add: fl_pos_eq s_def e_def)
  have "(of_int (rne s) - s) * 2 powi e = of_int (rne s) * 2 powi e - s * 2 powi e"
    by (simp add: algebra_simps)
  then have "fl q - q = (of_int (rne s) - s) * 2 powi e"
    using f q by simp
  then have "\<bar>fl q - q\<bar> = \<bar>of_int (rne s) - s\<bar> * 2 powi e"
    using epos by (simp add: abs_mult)
  also have "\<dots> \<le> 1 / 2 * 2 powi e"
    using rne_error [of s] epos by (intro mult_right_mono) simp_all
  also have "\<dots> \<le> q / 2 ^ 53"
  proof -
    have "(2::real) powi ilog2 q = 2 ^ 52 * 2 powi e"
      unfolding e_def by (simp add: power_int_diff)
    with ilog2_bounds(1) [OF assms] have "2 ^ 52 * 2 powi e \<le> q" by simp
    then show ?thesis by simp
  qed
  finally show ?thesis .
qed

lemma idx_exact:
  fixes x n :: nat
  assumes "x \<le> 4294967295" and "n < 2 ^ 19" and "(x * n) mod 4294967295 \<noteq> 0"
  shows "\<lfloor>fl (fl (real x / 4294967295) * real n)\<rfloor> = int ((x * n) div 4294967295)"
proof -
  define k where "k = (x * n) div 4294967295"
  define \<rho> where "\<rho> = (x * n) mod 4294967295"
  define q where "q = real x / 4294967295"
  define r where "r = fl q"
  define p where "p = r * real n"
  define t where "t = fl p"
  from assms(3) have xpos: "0 < x" and npos: "0 < n" by (auto intro: Nat.gr0I)
  from xpos assms(1) have q: "0 < q" "q \<le> 1" by (simp_all add: q_def)
  have nr: "real n < 2 ^ 19" using assms(2)
    by (metis of_nat_less_iff of_nat_numeral of_nat_power)
  have rq: "\<bar>r - q\<bar> \<le> q / 2 ^ 53" unfolding r_def by (rule fl_error [OF q(1)])
  have "q / 2 ^ 53 \<le> q / 2" using q by simp
  with rq q have rpos: "0 < r" and rle: "r \<le> 2" by linarith+
  from rpos npos have ppos: "0 < p" by (simp add: p_def)
  have tp: "\<bar>t - p\<bar> \<le> p / 2 ^ 53" unfolding t_def by (rule fl_error [OF ppos])
  have "p \<le> 2 * real n" unfolding p_def using rle by (simp add: mult_right_mono)
  define c where "c = real n / 2 ^ 53"
  have "p / 2 ^ 53 \<le> 2 * real n / 2 ^ 53"
    using \<open>p \<le> 2 * real n\<close> by (rule divide_right_mono) simp
  with tp have tp': "\<bar>t - p\<bar> \<le> 2 * c" by (simp add: c_def)
  have "\<bar>p - q * real n\<bar> = \<bar>r - q\<bar> * real n"
    unfolding p_def by (simp add: abs_mult flip: left_diff_distrib)
  also have "\<dots> \<le> 1 / 2 ^ 53 * real n"
    using rq q by (intro mult_right_mono) simp_all
  finally have pq: "\<bar>p - q * real n\<bar> \<le> c" by (simp add: c_def)
  from tp' pq have "\<bar>t - q * real n\<bar> \<le> 3 * c" by linarith
  also have "\<dots> < 3 * 2 ^ 19 / 2 ^ 53" using nr by (simp add: c_def)
  also have "\<dots> < (1::real) / 4294967295" by simp
  finally have close: "\<bar>t - q * real n\<bar> < 1 / 4294967295" .
  have "x * n = k * 4294967295 + \<rho>" by (simp add: k_def \<rho>_def)
  then have "real (x * n) = real (k * 4294967295 + \<rho>)" by simp
  then have qn: "q * real n = real k + real \<rho> / 4294967295" by (simp add: q_def field_simps)
  have "0 < \<rho>" "\<rho> < 4294967295" using assms(3) by (simp_all add: \<rho>_def)
  then have "1 \<le> real \<rho>" "real \<rho> \<le> 4294967294"
    by (simp_all add: Suc_leI)
  then have "real k + 1 / 4294967295 \<le> q * real n" "q * real n \<le> real k + 4294967294 / 4294967295"
    unfolding qn by (simp_all add: divide_right_mono)
  with close have "real k \<le> t" "t < real k + 1" by linarith+
  then have "\<lfloor>t\<rfloor> = int k" by (simp add: floor_eq_iff)
  then show ?thesis by (simp add: t_def p_def r_def q_def k_def)
qed

section \<open>The generator\<close>

lemma fl_one [simp]: "fl 1 = 1"
  using fl_exact [of 1 0] by simp

lemma fl_of_nat:
  assumes "n < 2 ^ 53"
  shows "fl (real n) = real n"
proof (cases "n = 0")
  case True
  then show ?thesis by simp
next
  case False
  then have "0 < int n" by simp
  moreover from assms have "int n < 2 ^ 53"
    by (metis of_nat_less_iff of_nat_numeral of_nat_power)
  ultimately show ?thesis using fl_exact [of "int n" 0] by simp
qed

lemma rand_state [simp]: "snd (rand g) = xorshift_step g"
  by (simp add: rand_def Let_def)

lemma rand_value: "fst (rand g) = fl (real (unat (xorshift_step g)) / 4294967295)"
  by (simp add: rand_def Let_def)

lemma unat_le_max: "unat (x :: 32 word) \<le> 4294967295"
proof -
  have "unat x < 2 ^ LENGTH(32)" by (rule unsigned_less)
  then show ?thesis by simp
qed

lemma unsigned_real_bounds:
  "0 \<le> (unsigned (x :: 32 word) :: real)" "(unsigned (x :: 32 word) :: real) \<le> 4294967295"
proof -
  have "0 \<le> real (unat x)" by (rule of_nat_0_le_iff)
  then show "0 \<le> (unsigned x :: real)" by simp
  have "real (unat x) \<le> real 4294967295" using unat_le_max [of x] by (rule of_nat_mono)
  then show "(unsigned x :: real) \<le> 4294967295" by simp
qed

lemma unsigned_real_below:
  assumes "x \<noteq> (0xFFFFFFFF :: 32 word)"
  shows "(unsigned x :: real) \<le> 4294967294"
proof -
  have "unat x \<noteq> unat (0xFFFFFFFF :: 32 word)"
    using assms by (simp only: word_unat_eq_iff not_False_eq_True)
  then have "unat x \<noteq> 4294967295" by simp
  with unat_le_max [of x] have "unat x \<le> 4294967294" by linarith
  then have "real (unat x) \<le> real 4294967294" by (rule of_nat_mono)
  then show ?thesis by simp
qed

lemma rand_range: "0 \<le> fst (rand g)" "fst (rand g) \<le> 1"
proof -
  let ?q = "(unsigned (xorshift_step g) :: real) / 4294967295"
  have q: "0 \<le> ?q" "?q \<le> 1" using unsigned_real_bounds [of "xorshift_step g"] by simp_all
  from fl_mono [of 0 ?q] q show "0 \<le> fst (rand g)" by (simp add: rand_value)
  from fl_mono [of ?q 1] q show "fst (rand g) \<le> 1" by (simp add: rand_value)
qed

lemma rand_below_one:
  assumes "xorshift_step g \<noteq> 0xFFFFFFFF"
  shows "fst (rand g) \<le> 4294967295 / 4294967296"
proof -
  let ?q = "(unsigned (xorshift_step g) :: real) / 4294967295"
  from unsigned_real_below [OF assms] unsigned_real_bounds(1) [of "xorshift_step g"]
  have q: "0 \<le> ?q" "?q \<le> 4294967295 / 4294967296" by simp_all
  have "fl (4294967295 / 4294967296) = 4294967295 / 4294967296"
    using fl_exact [of 4294967295 32] by simp
  with fl_mono [OF q] show ?thesis by (simp add: rand_value)
qed

lemma rand_one_iff: "fst (rand g) = 1 \<longleftrightarrow> xorshift_step g = 0xFFFFFFFF"
proof
  assume "fst (rand g) = 1"
  show "xorshift_step g = 0xFFFFFFFF"
  proof (rule ccontr)
    assume "xorshift_step g \<noteq> 0xFFFFFFFF"
    from rand_below_one [OF this] \<open>fst (rand g) = 1\<close> show False by simp
  qed
next
  assume "xorshift_step g = 0xFFFFFFFF"
  then show "fst (rand g) = 1" by (simp add: rand_value)
qed

lemma scaled_floor_range:
  assumes "0 \<le> r" "r \<le> 1" "n < 2 ^ 53"
  shows "0 \<le> \<lfloor>fl (r * real n)\<rfloor>" "\<lfloor>fl (r * real n)\<rfloor> \<le> int n"
proof -
  from assms have p: "0 \<le> r * real n" "r * real n \<le> real n"
    by (simp_all add: mult_left_le_one_le)
  from fl_mono [of 0 "r * real n"] p have "0 \<le> fl (r * real n)" by simp
  then show "0 \<le> \<lfloor>fl (r * real n)\<rfloor>" by simp
  from fl_mono [OF p] have "fl (r * real n) \<le> real n" by (simp add: fl_of_nat [OF assms(3)])
  then have "\<lfloor>fl (r * real n)\<rfloor> \<le> \<lfloor>real n\<rfloor>" by (rule floor_mono)
  then show "\<lfloor>fl (r * real n)\<rfloor> \<le> int n" by simp
qed

lemma scaled_floor_less:
  assumes "0 \<le> r" "r \<le> 4294967295 / 4294967296" "0 < n" "n < 2 ^ 21"
  shows "\<lfloor>fl (r * real n)\<rfloor> < int n"
proof -
  let ?b = "real_of_int (4294967295 * int n) / 2 ^ 32"
  from assms have p: "0 \<le> r * real n" "r * real n \<le> ?b"
    by (simp_all add: mult_right_mono)
  have "int n < 2 ^ 21" using assms(4) by (metis of_nat_less_iff of_nat_numeral of_nat_power)
  then have "4294967295 * int n < 2 ^ 53" by simp
  moreover have "0 < 4294967295 * int n" using assms(3) by simp
  ultimately have "fl ?b = ?b" by (rule fl_exact [rotated])
  with fl_mono [OF p] have "fl (r * real n) \<le> ?b" by simp
  also have "?b < real n" using assms(3) by simp
  finally show ?thesis by (simp add: floor_less_iff)
qed


section \<open>Clue selection\<close>

lemma select_loop_closed:
  "select_loop k g cl =
     (cl @ map (\<lambda>i. js_nth WORDS \<lfloor>fl (fst (rand ((xorshift_step ^^ i) g)) * real (length WORDS))\<rfloor>)
             [0..<k],
      (xorshift_step ^^ k) g)"
proof (induction k arbitrary: g cl)
  case 0
  show ?case by simp
next
  case (Suc k)
  have "map (\<lambda>i. js_nth WORDS \<lfloor>fl (fst (rand ((xorshift_step ^^ i) g)) * real (length WORDS))\<rfloor>)
          [0..<Suc k]
        = js_nth WORDS \<lfloor>fl (fst (rand g) * real (length WORDS))\<rfloor>
          # map (\<lambda>i. js_nth WORDS
                \<lfloor>fl (fst (rand ((xorshift_step ^^ i) (xorshift_step g))) * real (length WORDS))\<rfloor>)
              [0..<k]"
    by (simp only: upt_conv_Cons [of 0 "Suc k"] map_Suc_upt [symmetric] list.map map_map
        comp_def funpow_Suc_right o_apply funpow_0 zero_less_Suc if_True)
  then show ?case
    by (simp add: Suc.IH case_prod_beta Let_def funpow_swap1 del: upt_Suc)
qed


section \<open>Grid placement\<close>

lemma js_nth_in_range:
  "0 \<le> i \<Longrightarrow> nat i < length xs \<Longrightarrow> js_nth xs i = Some (xs ! nat i)"
  by (simp add: js_nth_def)

lemma paint_cell_update:
  "c0\<lparr>prop_t := Some (quoted (charToken (js_nth chars (int j)))),
      prop_c := Some (colorCode (fst (rand g))),
      background := Some (gradient (colorCode (fst (rand g)))),
      prop_s := Some (js ''0'')\<rparr> = paint_cell chars j g"
  by (cases c0) (simp add: paint_cell_def Let_def)

lemma paint_result:
  assumes "0 \<le> st" and "nat st + j + n \<le> length cs"
  shows "\<exists>cs'. paint chars st n j g cs = Inr (cs', (xorshift_step ^^ n) g)
           \<and> length cs' = length cs
           \<and> (\<forall>i < length cs. cs' ! i =
                 (if nat st + j \<le> i \<and> i < nat st + j + n
                  then paint_cell chars (i - nat st) ((xorshift_step ^^ (i - nat st - j)) g)
                  else cs ! i))"
  using assms
proof (induction n arbitrary: j g cs)
  case 0
  then show ?case by auto
next
  case (Suc n)
  let ?k = "nat st + j"
  let ?c1 = "paint_cell chars j g"
  let ?cs1 = "cs[?k := ?c1]"
  from Suc.prems have k: "?k < length cs" and idx: "nat (st + int j) = ?k"
    and nth: "js_nth cs (st + int j) = Some (cs ! ?k)"
    by (simp_all add: js_nth_def nat_add_distrib)
  from Suc.prems have "nat st + Suc j + n \<le> length ?cs1" by simp
  from Suc.IH [OF Suc.prems(1) this, of "xorshift_step g"]
  obtain cs' where r: "paint chars st n (Suc j) (xorshift_step g) ?cs1
        = Inr (cs', (xorshift_step ^^ n) (xorshift_step g))"
    and l: "length cs' = length cs"
    and c: "\<forall>i < length cs. cs' ! i =
             (if nat st + Suc j \<le> i \<and> i < nat st + Suc j + n
              then paint_cell chars (i - nat st)
                     ((xorshift_step ^^ (i - nat st - Suc j)) (xorshift_step g))
              else ?cs1 ! i)"
    by auto
  have step: "paint chars st (Suc n) j g cs = paint chars st n (Suc j) (xorshift_step g) ?cs1"
    by (simp add: nth idx case_prod_beta Let_def paint_cell_update)
  have "\<forall>i < length cs. cs' ! i =
          (if ?k \<le> i \<and> i < ?k + Suc n
           then paint_cell chars (i - nat st) ((xorshift_step ^^ (i - nat st - j)) g)
           else cs ! i)"
  proof (intro allI impI)
    fix i assume i: "i < length cs"
    note ci = c [rule_format, OF i]
    show "cs' ! i = (if ?k \<le> i \<and> i < ?k + Suc n
           then paint_cell chars (i - nat st) ((xorshift_step ^^ (i - nat st - j)) g)
           else cs ! i)"
    proof (cases "nat st + Suc j \<le> i \<and> i < nat st + Suc j + n")
      case True
      then have "i - nat st - j = Suc (i - nat st - Suc j)" by linarith
      then have "(xorshift_step ^^ (i - nat st - j)) g
          = (xorshift_step ^^ (i - nat st - Suc j)) (xorshift_step g)"
        by (simp only: funpow_Suc_right o_apply)
      moreover from True have "?k \<le> i \<and> i < ?k + Suc n" by linarith
      moreover from ci True have "cs' ! i = paint_cell chars (i - nat st)
          ((xorshift_step ^^ (i - nat st - Suc j)) (xorshift_step g))"
        by (simp only: if_True simp_thms)
      ultimately show ?thesis by (simp only: if_True simp_thms)
    next
      case False
      with ci have old: "cs' ! i = ?cs1 ! i" by (simp only: if_False simp_thms)
      show ?thesis
      proof (cases "i = ?k")
        case True
        have "?k \<le> i \<and> i < ?k + Suc n" using True by simp
        moreover have "?cs1 ! i = paint_cell chars (i - nat st) ((xorshift_step ^^ (i - nat st - j)) g)"
          using True k by simp
        ultimately show ?thesis using old by (simp only: if_True simp_thms)
      next
        case neq: False
        with False have "\<not> (?k \<le> i \<and> i < ?k + Suc n)" by linarith
        moreover have "?cs1 ! i = cs ! i" using neq by simp
        ultimately show ?thesis using old by (simp only: if_False simp_thms)
      qed
    qed
  qed
  with r l step show ?case by (simp add: funpow_swap1)
qed

lemma start_range:
  assumes "n \<le> 6"
  shows "0 \<le> \<lfloor>fl (fst (rand g) * (real totalCells - real n))\<rfloor>"
    and "\<lfloor>fl (fst (rand g) * (real totalCells - real n))\<rfloor> + int n \<le> int totalCells"
proof -
  from assms have eq: "real totalCells - real n = real (totalCells - n)"
    by (simp add: totalCells_def)
  have lt: "totalCells - n < 2 ^ 53" by (simp add: totalCells_def)
  from scaled_floor_range [OF rand_range lt, of g]
  show "0 \<le> \<lfloor>fl (fst (rand g) * (real totalCells - real n))\<rfloor>"
    and "\<lfloor>fl (fst (rand g) * (real totalCells - real n))\<rfloor> + int n \<le> int totalCells"
    using assms unfolding eq by (simp_all add: totalCells_def)
qed

lemma layout_bounds:
  "(e, g1) \<in> set (layout ws g) \<Longrightarrow>
     len e = min (length (word e)) 6 \<and> 0 \<le> start e \<and> start e + int (len e) \<le> int totalCells"
proof (induction ws arbitrary: g)
  case Nil
  then show ?case by simp
next
  case (Cons w ws)
  show ?case
  proof (cases w)
    case None
    with Cons.prems show ?thesis by simp
  next
    case (Some chars)
    let ?n = "min (length chars) 6"
    from Cons.prems Some
    consider "e = \<lparr>word = chars,
                  start = \<lfloor>fl (fst (rand g) * (real totalCells - real ?n))\<rfloor>, len = ?n\<rparr>"
      | "(e, g1) \<in> set (layout ws ((xorshift_step ^^ ?n) (xorshift_step g)))"
      by (auto simp: case_prod_beta Let_def)
    then show ?thesis
    proof cases
      case 1
      with start_range [of ?n g] show ?thesis by simp
    next
      case 2
      then show ?thesis by (rule Cons.IH)
    qed
  qed
qed


lemma find_snoc:
  "find P (xs @ [y]) = (case find P xs of None \<Rightarrow> (if P y then Some y else None) | Some x \<Rightarrow> Some x)"
  by (induction xs) simp_all

lemma covers_nat:
  "0 \<le> start e \<Longrightarrow> covers e (int i) \<longleftrightarrow> nat (start e) \<le> i \<and> i < nat (start e) + len e"
  unfolding covers_def by linarith

lemma place_loop_result:
  assumes "None \<notin> set ws" and "length cs = totalCells"
  shows "\<exists>cs' g'. place_loop ws g mp cs = Inr (mp @ map fst (layout ws g), cs', g')
           \<and> length cs' = totalCells
           \<and> (\<forall>i < totalCells. cs' ! i =
                 (case find (\<lambda>(e, g1). covers e (int i)) (rev (layout ws g)) of
                    None \<Rightarrow> cs ! i
                  | Some (e, g1) \<Rightarrow>
                      paint_cell (word e) (i - nat (start e))
                        ((xorshift_step ^^ (i - nat (start e))) g1)))"
  using assms
proof (induction ws arbitrary: g mp cs)
  case Nil
  then show ?case by simp
next
  case (Cons w ws)
  from Cons.prems(1) obtain chars where w: "w = Some chars" by (cases w) auto
  let ?n = "min (length chars) 6"
  let ?g1 = "xorshift_step g"
  let ?st = "\<lfloor>fl (fst (rand g) * (real totalCells - real ?n))\<rfloor>"
  let ?e = "\<lparr>word = chars, start = ?st, len = ?n\<rparr>"
  let ?g2 = "(xorshift_step ^^ ?n) ?g1"
  let ?P = "\<lambda>i. \<lambda>(e, g1). covers e (int i)"
  from start_range [of ?n g] have st: "0 \<le> ?st" "?st + int ?n \<le> int totalCells" by simp_all
  then have "nat ?st + 0 + ?n \<le> length cs" using Cons.prems(2) by linarith
  from paint_result [OF st(1) this, of chars ?g1]
  obtain cs1 where p: "paint chars ?st ?n 0 ?g1 cs = Inr (cs1, ?g2)"
    and l1: "length cs1 = length cs"
    and c1: "\<forall>i < length cs. cs1 ! i =
               (if nat ?st + 0 \<le> i \<and> i < nat ?st + 0 + ?n
                then paint_cell chars (i - nat ?st) ((xorshift_step ^^ (i - nat ?st - 0)) ?g1)
                else cs ! i)"
    by blast
  from Cons.prems have "None \<notin> set ws" "length cs1 = totalCells" using l1 by simp_all
  from Cons.IH [OF this, of ?g2 "mp @ [?e]"]
  obtain cs' g' where r: "place_loop ws ?g2 (mp @ [?e]) cs1
        = Inr ((mp @ [?e]) @ map fst (layout ws ?g2), cs', g')"
    and l': "length cs' = totalCells"
    and c': "\<forall>i < totalCells. cs' ! i =
               (case find (?P i) (rev (layout ws ?g2)) of
                  None \<Rightarrow> cs1 ! i
                | Some (e, g1) \<Rightarrow>
                    paint_cell (word e) (i - nat (start e))
                      ((xorshift_step ^^ (i - nat (start e))) g1))"
    by blast
  have lay: "layout (w # ws) g = (?e, ?g1) # layout ws ?g2"
    by (simp add: w case_prod_beta Let_def)
  have run: "place_loop (w # ws) g mp cs = place_loop ws ?g2 (mp @ [?e]) cs1"
    by (simp add: w case_prod_beta Let_def p)
  have "\<forall>i < totalCells. cs' ! i =
          (case find (?P i) (rev (layout (w # ws) g)) of
             None \<Rightarrow> cs ! i
           | Some (e, g1) \<Rightarrow>
               paint_cell (word e) (i - nat (start e))
                 ((xorshift_step ^^ (i - nat (start e))) g1))"
  proof (intro allI impI)
    fix i assume i: "i < totalCells"
    note ci = c' [rule_format, OF i]
    from i Cons.prems(2) have "i < length cs" by simp
    note c1i = c1 [rule_format, OF this]
    have cov: "covers ?e (int i) \<longleftrightarrow> nat ?st + 0 \<le> i \<and> i < nat ?st + 0 + ?n"
      using covers_nat [of ?e i] st(1) by simp
    show "cs' ! i =
          (case find (?P i) (rev (layout (w # ws) g)) of
             None \<Rightarrow> cs ! i
           | Some (e, g1) \<Rightarrow>
               paint_cell (word e) (i - nat (start e))
                 ((xorshift_step ^^ (i - nat (start e))) g1))"
    proof (cases "find (?P i) (rev (layout ws ?g2))")
      case None
      with ci have "cs' ! i = cs1 ! i" by simp
      with c1i cov None show ?thesis by (simp add: lay find_snoc)
    next
      case (Some x)
      with ci show ?thesis by (simp add: lay find_snoc)
    qed
  qed
  with r l' run lay show ?case by simp
qed

lemma place_loop_undefined:
  assumes "None \<in> set ws" and "length cs = totalCells"
  shows "place_loop ws g mp cs = Inl TypeError"
  using assms
proof (induction ws arbitrary: g mp cs)
  case Nil
  then show ?case by simp
next
  case (Cons w ws)
  show ?case
  proof (cases w)
    case None
    then show ?thesis by simp
  next
    case (Some chars)
    with Cons.prems have rest: "None \<in> set ws" by simp
    from place_loop_result [of "[w]" cs g mp] Some Cons.prems(2)
    obtain cs1 g1 where one: "place_loop [w] g mp cs = Inr (mp @ map fst (layout [w] g), cs1, g1)"
      and l: "length cs1 = totalCells" by auto
    from one Some have "place_loop (w # ws) g mp cs
        = place_loop ws g1 (mp @ map fst (layout [w] g)) cs1"
      by (auto simp: case_prod_beta Let_def split: sum.splits)
    with Cons.IH [OF rest l] show ?thesis by simp
  qed
qed

section \<open>Computing concrete draws\<close>

lemma unat_xor_shl:
  "unat (x XOR push_bit k x) = unat x XOR take_bit 32 (push_bit k (unat x))"
  for x :: "32 word"
  by (simp add: unsigned_xor_eq unsigned_push_bit_eq)

lemma unat_xor_shr:
  "unat (x XOR drop_bit k x) = unat x XOR drop_bit k (unat x)"
  for x :: "32 word"
  by (simp add: unsigned_xor_eq unat_drop_bit_eq)

lemma unat_xorshift_step: "unat (xorshift_step x) = step_nat (unat x)"
  by (simp only: xorshift_step_def step_nat_def Let_def unat_xor_shl unat_xor_shr)

lemma xorshift_step_numeral:
  "xorshift_step (numeral k) = word_of_nat (step_nat (take_bit 32 (numeral k)))"
proof -
  have "unat (xorshift_step (numeral k :: 32 word)) = step_nat (take_bit 32 (numeral k))"
    by (simp add: unat_xorshift_step)
  then have "word_of_nat (unat (xorshift_step (numeral k :: 32 word)))
      = (word_of_nat (step_nat (take_bit 32 (numeral k))) :: 32 word)" by simp
  then show ?thesis by simp
qed

lemma draw_index:
  assumes "(unat (xorshift_step g) * n) mod 4294967295 \<noteq> 0" and "n < 2 ^ 19"
  shows "\<lfloor>fl (fst (rand g) * real n)\<rfloor> = int ((unat (xorshift_step g) * n) div 4294967295)"
  using idx_exact [OF unat_le_max assms(2,1)] by (simp add: rand_value)

lemma draw_index_numeral:
  assumes "(unat (xorshift_step g) * numeral k) mod 4294967295 \<noteq> 0"
    and "(numeral k :: nat) < 2 ^ 19"
  shows "\<lfloor>fl (fst (rand g) * numeral k)\<rfloor>
         = int ((unat (xorshift_step g) * numeral k) div 4294967295)"
  using draw_index [OF assms] by simp

lemma select_loop_numeral:
  "select_loop (numeral k) g cl =
     select_loop (pred_numeral k) (xorshift_step g)
       (cl @ [js_nth WORDS \<lfloor>fl (fst (rand g) * real (length WORDS))\<rfloor>])"
  by (simp add: numeral_eq_Suc case_prod_beta Let_def)

lemma select_loop_Suc:
  "select_loop (Suc k) g cl =
     select_loop k (xorshift_step g)
       (cl @ [js_nth WORDS \<lfloor>fl (fst (rand g) * real (length WORDS))\<rfloor>])"
  by (simp add: case_prod_beta Let_def)

lemma layout_Some:
  "layout (Some chars # ws) g =
     (\<lparr>word = chars,
       start = \<lfloor>fl (fst (rand g) * (real totalCells - real (min (length chars) 6)))\<rfloor>,
       len = min (length chars) 6\<rparr>, xorshift_step g)
     # layout ws ((xorshift_step ^^ min (length chars) 6) (xorshift_step g))"
  by (simp add: case_prod_beta Let_def)

lemma funpow_numeral:
  "(f ^^ numeral k) x = (f ^^ pred_numeral k) (f x)"
  by (simp only: numeral_eq_Suc funpow_Suc_right o_apply)

lemma WORDS_eval: "WORDS =
  [[65, 76, 80, 72, 65], [66, 82, 65, 86, 79], [67, 72, 65, 82, 76, 73, 69],
   [68, 69, 76, 84, 65], [69, 67, 72, 79], [70, 79, 88, 84, 82, 79, 84], [71, 79, 76, 70],
   [72, 79, 84, 69, 76], [73, 78, 68, 73, 65], [74, 85, 76, 73, 69, 84], [75, 73, 76, 79],
   [76, 73, 77, 65], [77, 73, 75, 69], [78, 79, 86, 69, 77, 66, 69, 82],
   [79, 83, 67, 65, 82], [80, 65, 80, 65], [81, 85, 69, 66, 69, 67], [82, 79, 77, 69, 79],
   [83, 73, 69, 82, 82, 65], [84, 65, 78, 71, 79], [85, 78, 73, 70, 79, 82, 77],
   [86, 73, 67, 84, 79, 82], [87, 72, 73, 83, 75, 69, 89], [88, 82, 65, 89],
   [89, 65, 78, 75, 69, 69], [90, 85, 76, 85], [80, 69, 78], [75, 69, 89],
   [71, 79, 76, 68], [83, 84, 69, 69, 76], [66, 82, 73, 68, 71, 69], [82, 73, 86, 69, 82],
   [74, 79, 73, 78], [80, 76, 65, 67, 69], [83, 84, 69, 69, 80]]"
  by (simp add: WORDS_def js_def)

lemma length_WORDS: "length WORDS = 35"
  by (simp add: WORDS_def)

lemmas eval_draws = xorshift_step_numeral step_nat_def Let_def draw_index_numeral

lemma seed_test1: "seedToInt (js ''test1'') = 0x992330bc"
  by (simp add: seedToInt_def js_def fnv_round_def)

lemma clues_test1:
  "selectClues (xorshift32 0x992330bc) =
     (map (Some \<circ> js) [''DELTA'', ''FOXTROT'', ''BRAVO'', ''CHARLIE'', ''GOLF'', ''VICTOR'',
        ''STEEL'', ''ECHO'', ''TANGO'', ''NOVEMBER''], 1688304902)"
  by (simp add: selectClues_def CLUE_COUNT_def xorshift32_def select_loop_numeral
      select_loop_Suc length_WORDS js_nth_def WORDS_eval js_def eval_draws
      del: select_loop.simps(2))

lemma layout_test1:
  "map fst (layout (map (Some \<circ> js) [''DELTA'', ''FOXTROT'', ''BRAVO'', ''CHARLIE'', ''GOLF'',
        ''VICTOR'', ''STEEL'', ''ECHO'', ''TANGO'', ''NOVEMBER'']) 1688304902) =
     [\<lparr>word = js ''DELTA'', start = 4, len = 5\<rparr>,
      \<lparr>word = js ''FOXTROT'', start = 21, len = 6\<rparr>,
      \<lparr>word = js ''BRAVO'', start = 7, len = 5\<rparr>,
      \<lparr>word = js ''CHARLIE'', start = 13, len = 6\<rparr>,
      \<lparr>word = js ''GOLF'', start = 18, len = 4\<rparr>,
      \<lparr>word = js ''VICTOR'', start = 10, len = 6\<rparr>,
      \<lparr>word = js ''STEEL'', start = 10, len = 5\<rparr>,
      \<lparr>word = js ''ECHO'', start = 11, len = 4\<rparr>,
      \<lparr>word = js ''TANGO'', start = 19, len = 5\<rparr>,
      \<lparr>word = js ''NOVEMBER'', start = 2, len = 6\<rparr>]"
  by (simp add: layout_Some funpow_numeral totalCells_def js_def eval_draws
      del: layout.simps(3))

section \<open>The whole derivation\<close>

lemma derive_success:
  assumes "selectClues (xorshift32 (seedToInt seed)) = (cl, g)" and "None \<notin> set cl"
  shows "\<exists>cs. derive seed = Inr \<lparr>clues = cl, mapping = map fst (layout cl g), cells = cs\<rparr>
           \<and> length cs = totalCells
           \<and> (\<forall>i < totalCells. cs ! i =
                 (case find (\<lambda>(e, g1). covers e (int i)) (rev (layout cl g)) of
                    None \<Rightarrow> blank_cell
                  | Some (e, g1) \<Rightarrow>
                      paint_cell (word e) (i - nat (start e))
                        ((xorshift_step ^^ (i - nat (start e))) g1)))"
proof -
  have "length (replicate totalCells blank_cell) = totalCells" by simp
  from place_loop_result [OF assms(2) this, of g "[]"]
  show ?thesis by (auto simp: derive_def assms(1) split: option.splits)
qed

lemma derive_failure:
  assumes "selectClues (xorshift32 (seedToInt seed)) = (cl, g)" and "None \<in> set cl"
  shows "derive seed = Inl TypeError"
proof -
  have "length (replicate totalCells blank_cell) = totalCells" by simp
  from place_loop_undefined [OF assms(2) this, of g "[]"]
  show ?thesis by (simp add: derive_def assms(1))
qed

lemma layout_words:
  "None \<notin> set ws \<Longrightarrow> map (\<lambda>x. Some (word (fst x))) (layout ws g) = ws"
proof (induction ws arbitrary: g)
  case Nil
  show ?case by simp
next
  case (Cons w ws)
  then obtain chars where "w = Some chars" by (cases w) auto
  with Cons show ?case by (simp add: case_prod_beta Let_def)
qed

lemma length_selectClues: "length (fst (selectClues g)) = 10"
  by (simp add: selectClues_def CLUE_COUNT_def select_loop_closed)

lemma derive_shape:
  assumes "derive seed = Inr p"
  shows "length (clues p) = 10 \<and> length (mapping p) = 10
         \<and> map (\<lambda>e. Some (word e)) (mapping p) = clues p \<and> length (cells p) = totalCells"
proof -
  obtain cl g where sel: "selectClues (xorshift32 (seedToInt seed)) = (cl, g)"
    by (cases "selectClues (xorshift32 (seedToInt seed))")
  have len: "length cl = 10" using length_selectClues [of "xorshift32 (seedToInt seed)"]
    by (simp add: sel)
  have def: "None \<notin> set cl"
  proof
    assume "None \<in> set cl"
    from derive_failure [OF sel this] assms show False by simp
  qed
  from derive_success [OF sel def] assms obtain cs
    where p: "p = \<lparr>clues = cl, mapping = map fst (layout cl g), cells = cs\<rparr>"
      and cs: "length cs = totalCells" by auto
  from layout_words [OF def, of g] have w: "map (\<lambda>e. Some (word e)) (map fst (layout cl g)) = cl"
    by (simp add: comp_def)
  then have "length (map (\<lambda>e. Some (word e)) (map fst (layout cl g))) = length cl" by simp
  then have "length (layout cl g) = 10" using len by simp
  with p cs len w show ?thesis by simp
qed

text \<open>
  Claim C1.  The derived data depend on the environment only through the seed: two
  page loads whose \<open>getSeed\<close> returns the same string produce the same
  outcome, and when that outcome is a page it has 10 clues, 10 mapping entries for
  those words in the same order, and the same 32 cells (tokens and colours).
\<close>

theorem load_deterministic:
  assumes "fst (getSeed e1) = fst (getSeed e2)"
  shows "load e1 = load e2
         \<and> (\<forall>p. load e1 = Inr p \<longrightarrow>
               length (clues p) = 10 \<and> length (mapping p) = 10
               \<and> map (\<lambda>e. Some (word e)) (mapping p) = clues p
               \<and> length (cells p) = totalCells)"
  using assms derive_shape [of "fst (getSeed e1)"] by (simp add: load_def)

theorem load_deterministic_witness:
  "fst (getSeed \<lparr>query_seed = Some (js ''test1''), clue_seed = None, random_int = 5\<rparr>)
     = fst (getSeed \<lparr>query_seed = None, clue_seed = Some (js ''test1''), random_int = 77\<rparr>)
   \<and> load \<lparr>query_seed = Some (js ''test1''), clue_seed = None, random_int = 5\<rparr>
     = load \<lparr>query_seed = None, clue_seed = Some (js ''test1''), random_int = 77\<rparr>"
proof -
  have h: "fst (getSeed \<lparr>query_seed = Some (js ''test1''), clue_seed = None, random_int = 5\<rparr>)
     = fst (getSeed \<lparr>query_seed = None, clue_seed = Some (js ''test1''), random_int = 77\<rparr>)"
    by (simp add: getSeed_def js_def)
  from load_deterministic [OF h] h show ?thesis by simp
qed

section \<open>Normalisation and the step handler\<close>

lemma toUpperCase_allowed: "allowed c \<Longrightarrow> allowed (toUpperCase c)"
  unfolding allowed_def toUpperCase_def by (auto simp: word_le_nat_alt unat_sub word_less_nat_alt) 

lemma toUpperCase_idem: "toUpperCase (toUpperCase c) = toUpperCase c"
  unfolding toUpperCase_def by (auto simp: word_le_nat_alt unat_sub)

lemma norm_filter_map:
  "map toUpperCase (filter allowed (map toUpperCase (filter allowed xs)))
   = map toUpperCase (filter allowed xs)"
  by (induction xs) (simp_all add: toUpperCase_allowed toUpperCase_idem)

text \<open>
  Claim C9.  Normalisation is idempotent: normalising an already normalised string
  changes nothing, for every input string.
\<close>

theorem norm_idempotent: "norm_str (Some (norm_str x)) = norm_str x"
  by (simp add: norm_str_def norm_filter_map)

text \<open>
  Claim C8.  A step submission whose answer normalises to the empty string only
  sets the missing-input text of \<open>hintBox\<close>: nothing is logged (the
  incorrect-answer line in particular), the result does not depend on the clues, so
  no comparison with an expected clue takes part in it, and the step counter and
  every other field keep their values.
\<close>

theorem submit_missing_input:
  "norm_str (Some (answer s)) = [] \<Longrightarrow>
     submit_click cl s = s\<lparr>hintBox := Some PleaseEnter\<rparr>
     \<and> submit_click cl s = submit_click cl' s
     \<and> current (submit_click cl s) = current s
     \<and> consoleLog (submit_click cl s) = consoleLog s"
  by (simp add: submit_click_def)

theorem submit_missing_input_witness:
  "norm_str (Some (answer (initial\<lparr>answer := js '' ?!''\<rparr>))) = []
   \<and> submit_click [Some (js ''ALPHA'')] (initial\<lparr>answer := js '' ?!''\<rparr>)
       = initial\<lparr>answer := js '' ?!'', hintBox := Some PleaseEnter\<rparr>"
proof -
  have h: "norm_str (Some (answer (initial\<lparr>answer := js '' ?!''\<rparr>))) = []"
    by (simp add: norm_str_def js_def allowed_def)
  from submit_missing_input [OF h, of "[Some (js ''ALPHA'')]"] h show ?thesis by simp
qed

lemma js_get_in_range:
  "1 \<le> i \<Longrightarrow> i \<le> int (length cl) \<Longrightarrow> js_get cl (i - 1) = cl ! nat (i - 1)"
  by (simp add: js_get_def js_nth_def)

lemma js_get_beyond:
  "int (length cl) \<le> i \<Longrightarrow> js_get cl i = None"
  by (simp add: js_get_def js_nth_def)

text \<open>
  Claim C5.  At a step from 1 to 10 of a 10-clue sequence: when the normalised answer
  is not empty and equals the normalised clue at index \<open>step - 1\<close>, the counter
  goes up by exactly 1, the answer field is cleared, and the final passphrase controls
  are enabled by this click exactly when the new step is above 10; when it is not
  empty and differs, the incorrect-answer texts are logged and shown and nothing else
  in the state changes.
\<close>

theorem submit_step:
  assumes "length cl = 10" and "1 \<le> current s" and "current s \<le> 10"
  shows "let val = norm_str (Some (answer s));
             expected = norm_str (cl ! nat (current s - 1));
             s' = submit_click cl s
         in (val \<noteq> [] \<and> val = expected \<longrightarrow>
               current s' = current s + 1 \<and> answer s' = []
               \<and> (finalInput_disabled s' \<longleftrightarrow> finalInput_disabled s \<and> current s' \<le> 10)
               \<and> (finalBtn_disabled s' \<longleftrightarrow> finalBtn_disabled s \<and> current s' \<le> 10))
          \<and> (val \<noteq> [] \<and> val \<noteq> expected \<longrightarrow>
               s' = s\<lparr>consoleLog := consoleLog s @ [LogIncorrect],
                      hintBox := Some IncorrectHint\<rparr>)"
proof -
  from assms have "js_get cl (current s - 1) = cl ! nat (current s - 1)"
    by (intro js_get_in_range) simp_all
  then show ?thesis
    by (auto simp: submit_click_def Let_def CLUE_COUNT_def updateUI_def)
qed

theorem submit_step_witness:
  "length (map (Some \<circ> js) [''DELTA'', ''FOXTROT'', ''BRAVO'', ''CHARLIE'', ''GOLF'',
        ''VICTOR'', ''STEEL'', ''ECHO'', ''TANGO'', ''NOVEMBER'']) = 10
   \<and> 1 \<le> current (initial\<lparr>answer := js ''delta !''\<rparr>)
   \<and> current (initial\<lparr>answer := js ''delta !''\<rparr>) \<le> 10
   \<and> current (submit_click (map (Some \<circ> js) [''DELTA'', ''FOXTROT'', ''BRAVO'', ''CHARLIE'',
        ''GOLF'', ''VICTOR'', ''STEEL'', ''ECHO'', ''TANGO'', ''NOVEMBER''])
        (initial\<lparr>answer := js ''delta !''\<rparr>)) = 2"
  using submit_step [of "map (Some \<circ> js) [''DELTA'', ''FOXTROT'', ''BRAVO'', ''CHARLIE'',
        ''GOLF'', ''VICTOR'', ''STEEL'', ''ECHO'', ''TANGO'', ''NOVEMBER'']"
        "initial\<lparr>answer := js ''delta !''\<rparr>"]
  by (simp add: initial_def updateUI_def norm_str_def js_def allowed_def toUpperCase_def Let_def)

text \<open>
  Claim C6.  For every clue sequence and every submitted passphrase, the final click
  shows the success message exactly when the normalised input equals the
  normalisation of the clues joined by hyphens in selection order; otherwise it only
  shows and logs the retry message, so the step counter and the final controls stay
  as they were.
\<close>

theorem final_submit:
  "(solved (final_click cl s) \<longleftrightarrow>
      norm_str (Some (finalInput s)) = norm_str (Some (join (js ''-'') cl)))
   \<and> (norm_str (Some (finalInput s)) \<noteq> norm_str (Some (join (js ''-'') cl)) \<longrightarrow>
        final_click cl s = s\<lparr>finalMsg := Some PassphraseIncorrect,
                               consoleLog := consoleLog s @ [LogFinalIncorrect]\<rparr>)"
  by (simp add: final_click_def solved_def Let_def)

theorem final_submit_witness:
  "norm_str (Some (finalInput (initial\<lparr>finalInput := js ''key-GOLD''\<rparr>)))
     \<noteq> norm_str (Some (join (js ''-'') [Some (js ''KEY''), Some (js ''PEN'')]))
   \<and> \<not> solved (final_click [Some (js ''KEY''), Some (js ''PEN'')]
                  (initial\<lparr>finalInput := js ''key-GOLD''\<rparr>))
   \<and> solved (final_click [Some (js ''KEY''), Some (js ''PEN'')]
                  (initial\<lparr>finalInput := js ''key-pen''\<rparr>))"
  using final_submit [of "[Some (js ''KEY''), Some (js ''PEN'')]"
          "initial\<lparr>finalInput := js ''key-GOLD''\<rparr>"]
    final_submit [of "[Some (js ''KEY''), Some (js ''PEN'')]"
          "initial\<lparr>finalInput := js ''key-pen''\<rparr>"]
  by (simp add: initial_def updateUI_def norm_str_def js_def allowed_def toUpperCase_def solved_def)

section \<open>Reachable states of the validation state machine\<close>

lemma fire_invariant:
  assumes "length (clues pg) = 10"
    and "1 \<le> current s \<and> current s \<le> 11
         \<and> (current s \<le> 10 \<longrightarrow> finalBtn_disabled s \<and> finalMsg s = None)"
  shows "1 \<le> current (fire pg s ev) \<and> current (fire pg s ev) \<le> 11
         \<and> (current (fire pg s ev) \<le> 10 \<longrightarrow>
               finalBtn_disabled (fire pg s ev) \<and> finalMsg (fire pg s ev) = None)
         \<and> current s \<le> current (fire pg s ev)
         \<and> current (fire pg s ev) \<le> current s + 1"
proof (cases ev)
  case Click_submit
  show ?thesis
  proof (cases "current s = 11")
    case True
    with assms(1) have "js_get (clues pg) (current s - 1) = None"
      by (intro js_get_beyond) simp
    with True assms(2) Click_submit show ?thesis
      by (auto simp: fire_def submit_click_def Let_def norm_str_def)
  next
    case False
    with assms(2) Click_submit show ?thesis
      by (auto simp: fire_def submit_click_def Let_def CLUE_COUNT_def updateUI_def)
  qed
next
  case Click_hint
  with assms(2) show ?thesis
    by (auto simp: fire_def hint_click_def split: option.split)
next
  case Click_final
  with assms(2) show ?thesis
    by (auto simp: fire_def final_click_def Let_def)
qed (use assms(2) in \<open>auto simp: fire_def\<close>)

lemma run_snoc: "run pg (evs @ [ev]) = fire pg (run pg evs) ev"
  by (simp add: run_def)

lemma run_invariant:
  assumes "length (clues pg) = 10"
  shows "1 \<le> current (run pg evs) \<and> current (run pg evs) \<le> 11
         \<and> (current (run pg evs) \<le> 10 \<longrightarrow>
               finalBtn_disabled (run pg evs) \<and> finalMsg (run pg evs) = None)"
proof (induction evs rule: rev_induct)
  case Nil
  show ?case by (simp add: run_def initial_def updateUI_def)
next
  case (snoc ev evs)
  from fire_invariant [OF assms snoc.IH, of ev] show ?case by (simp add: run_snoc)
qed

text \<open>
  Claim C7.  After any sequence of player events on a page with 10 clues, the step
  counter lies between 1 and 11, one more event raises it by at most 1, and while
  it is at most 10 the success message has not been shown and a click on the final
  button does not show it.
\<close>

theorem step_counter_bounds:
  assumes "length (clues pg) = 10"
  shows "1 \<le> current (run pg evs) \<and> current (run pg evs) \<le> 11
         \<and> current (run pg evs) \<le> current (run pg (evs @ [ev]))
         \<and> current (run pg (evs @ [ev])) \<le> current (run pg evs) + 1
         \<and> (current (run pg evs) \<le> 10 \<longrightarrow>
               \<not> solved (run pg evs) \<and> \<not> solved (fire pg (run pg evs) Click_final))"
proof -
  note inv = run_invariant [OF assms, of evs]
  from fire_invariant [OF assms inv, of ev] inv show ?thesis
    by (auto simp: run_snoc solved_def fire_def)
qed

theorem step_counter_bounds_witness:
  "length (clues \<lparr>clues = map (Some \<circ> js) [''DELTA'', ''FOXTROT'', ''BRAVO'', ''CHARLIE'',
        ''GOLF'', ''VICTOR'', ''STEEL'', ''ECHO'', ''TANGO'', ''NOVEMBER''],
        mapping = [], cells = []\<rparr>) = 10
   \<and> current (run \<lparr>clues = map (Some \<circ> js) [''DELTA'', ''FOXTROT'', ''BRAVO'', ''CHARLIE'',
        ''GOLF'', ''VICTOR'', ''STEEL'', ''ECHO'', ''TANGO'', ''NOVEMBER''],
        mapping = [], cells = []\<rparr>
        [Type_answer (js ''Delta''), Click_submit, Click_final]) = 2
   \<and> \<not> solved (run \<lparr>clues = map (Some \<circ> js) [''DELTA'', ''FOXTROT'', ''BRAVO'', ''CHARLIE'',
        ''GOLF'', ''VICTOR'', ''STEEL'', ''ECHO'', ''TANGO'', ''NOVEMBER''],
        mapping = [], cells = []\<rparr>
        [Type_answer (js ''Delta''), Click_submit, Click_final])"
  using step_counter_bounds [of "\<lparr>clues = map (Some \<circ> js) [''DELTA'', ''FOXTROT'', ''BRAVO'',
        ''CHARLIE'', ''GOLF'', ''VICTOR'', ''STEEL'', ''ECHO'', ''TANGO'', ''NOVEMBER''],
        mapping = [], cells = []\<rparr>"
        "[Type_answer (js ''Delta''), Click_submit, Click_final]" Click_hint]
  by (simp add: run_def fire_def submit_click_def initial_def updateUI_def norm_str_def js_def
       allowed_def toUpperCase_def Let_def js_get_def js_nth_def CLUE_COUNT_def)

end
